theory Spec2Isabelle
  imports Main "HOL-Library.Word"
begin

unbundle bit_operations_syntax

section \<open>The filesystem as the program sees it\<close>

text \<open>
  \<^verbatim>\<open>find_duplicate_files.py\<close> touches the filesystem through five library calls:
  \<^verbatim>\<open>os.walk\<close>, \<^verbatim>\<open>os.path.islink\<close> (which calls \<^verbatim>\<open>os.lstat\<close>), \<^verbatim>\<open>os.stat\<close>
  (also behind \<^verbatim>\<open>os.path.getsize\<close>), \<^verbatim>\<open>open(..., 'rb')\<close> and \<^verbatim>\<open>read\<close>. A filesystem is
  a snapshot that answers these calls for every path. \<^verbatim>\<open>os.stat\<close>, \<^verbatim>\<open>open\<close> and
  \<^verbatim>\<open>read\<close> raise \<^verbatim>\<open>OSError\<close> when the system call fails; the model returns
  \<open>Inl OSError\<close> there.
\<close>

type_synonym path = string
type_synonym byte = "8 word"

datatype error = OSError

text \<open>The values of \<^verbatim>\<open>stat.S_IFMT(st_mode)\<close>.\<close>

datatype file_type = S_IFREG | S_IFDIR | S_IFLNK | S_IFCHR | S_IFBLK | S_IFIFO | S_IFSOCK

record stat_result =
  st_fmt :: file_type
  st_size :: nat

text \<open>
  What the filesystem holds under one path:
  \<^item> \<open>is_link\<close>: the entry under the path is a symbolic link;
  \<^item> \<open>lstatus\<close>: the file type \<^verbatim>\<open>os.lstat\<close> reports for the entry itself,
    \<open>None\<close> when the call fails (the entry is gone, or its directory denies search
    permission);
  \<^item> \<open>status\<close>: the answer of \<^verbatim>\<open>os.stat\<close>, \<open>None\<close> when the call fails
    (the entry is gone, or a directory on the way denies search permission);
  \<^item> \<open>contents\<close>: the bytes \<^verbatim>\<open>open(path, 'rb')\<close> gives access to, \<open>None\<close> when
    \<^verbatim>\<open>open\<close> fails;
  \<^item> \<open>bad_offset\<close>: the offset of the first byte the device cannot deliver; a
    \<^verbatim>\<open>read\<close> that has to fetch this byte fails.
\<close>

record node =
  is_link :: bool
  lstatus :: "file_type option"
  status :: "stat_result option"
  contents :: "byte list option"
  bad_offset :: "nat option"

type_synonym filesystem = "path \<Rightarrow> node"

definition os_lstat :: "filesystem \<Rightarrow> path \<Rightarrow> error + file_type" where
  "os_lstat fs p = (case lstatus (fs p) of None \<Rightarrow> Inl OSError | Some t \<Rightarrow> Inr t)"

text \<open>
  \<^verbatim>\<open>os.path.islink\<close> calls \<^verbatim>\<open>os.lstat\<close> in a \<^verbatim>\<open>try\<close>, answers \<^verbatim>\<open>False\<close> on
  \<^verbatim>\<open>OSError\<close>, and otherwise tests the file type with \<^verbatim>\<open>S_ISLNK\<close>.
\<close>

definition islink :: "filesystem \<Rightarrow> path \<Rightarrow> bool" where
  "islink fs p = (case os_lstat fs p of Inl e \<Rightarrow> False | Inr t \<Rightarrow> t = S_IFLNK)"

definition os_stat :: "filesystem \<Rightarrow> path \<Rightarrow> error + stat_result" where
  "os_stat fs p = (case status (fs p) of None \<Rightarrow> Inl OSError | Some st \<Rightarrow> Inr st)"

text \<open>An open binary file: the bytes not read yet, and how many of them precede the bad one.\<close>

record reader =
  pending :: "byte list"
  until_bad :: "nat option"

definition open_rb :: "filesystem \<Rightarrow> path \<Rightarrow> error + reader" where
  "open_rb fs p =
     (case contents (fs p) of
        None \<Rightarrow> Inl OSError
      | Some bs \<Rightarrow> Inr \<lparr>pending = bs, until_bad = bad_offset (fs p)\<rparr>)"

text \<open>
  \<^verbatim>\<open>fp.read(n)\<close>: the next \<open>n\<close> bytes, fewer at the end of the file, none after it;
  the reader moves on by what it returned.
\<close>

definition read_n :: "reader \<Rightarrow> nat \<Rightarrow> error + (byte list \<times> reader)" where
  "read_n fp n =
     (let b = take n (pending fp) in
      case until_bad fp of
        None \<Rightarrow> Inr (b, \<lparr>pending = drop n (pending fp), until_bad = None\<rparr>)
      | Some k \<Rightarrow>
          if k < length b then Inl OSError
          else Inr (b, \<lparr>pending = drop n (pending fp), until_bad = Some (k - length b)\<rparr>))"

text \<open>\<^verbatim>\<open>fp.read()\<close>: everything up to the end of the file.\<close>

definition read_all :: "reader \<Rightarrow> error + byte list" where
  "read_all fp =
     (case until_bad fp of
        None \<Rightarrow> Inr (pending fp)
      | Some k \<Rightarrow> if k < length (pending fp) then Inl OSError else Inr (pending fp))"

section \<open>Python values used as grouping criteria\<close>

text \<open>
  \<^verbatim>\<open>group_files\<close> tests its criterion with \<^verbatim>\<open>if criterion:\<close>. The criteria the
  program computes are an \<^verbatim>\<open>int\<close> (\<^verbatim>\<open>getsize\<close>), a \<^verbatim>\<open>str\<close> or \<^verbatim>\<open>None\<close>
  (\<^verbatim>\<open>get_file_checksum\<close>); \<open>truthy\<close> is Python's truth value of each.
\<close>

datatype pyval = PyNone | PyInt int | PyStr string

fun truthy :: "pyval \<Rightarrow> bool" where
  "truthy PyNone = False"
| "truthy (PyInt n) = (n \<noteq> 0)"
| "truthy (PyStr s) = (s \<noteq> [])"

section \<open>\<^verbatim>\<open>group_files\<close>\<close>

text \<open>
  \<^verbatim>\<open>groups\<close> is a \<^verbatim>\<open>dict\<close>, which keeps its keys in the order of their first
  insertion: an association list. \<^verbatim>\<open>groups.setdefault(criterion, []).append(filename)\<close>
  appends to the list stored under the key, and stores a new one-element list at the end
  when the key is new.
\<close>

fun setdefault_append :: "('k \<times> 'v list) list \<Rightarrow> 'k \<Rightarrow> 'v \<Rightarrow> ('k \<times> 'v list) list" where
  "setdefault_append [] k v = [(k, [v])]"
| "setdefault_append ((k', vs) # groups) k v =
     (if k' = k then (k', vs @ [v]) # groups else (k', vs) # setdefault_append groups k v)"

text \<open>The \<^verbatim>\<open>for filename in file_path_names\<close> loop; an exception of \<^verbatim>\<open>func\<close> ends it.\<close>

fun group_files_loop ::
  "(path \<Rightarrow> error + pyval) \<Rightarrow> path list \<Rightarrow> (pyval \<times> path list) list
     \<Rightarrow> error + (pyval \<times> path list) list" where
  "group_files_loop func [] groups = Inr groups"
| "group_files_loop func (filename # file_path_names) groups =
     (case func filename of
        Inl e \<Rightarrow> Inl e
      | Inr criterion \<Rightarrow>
          if truthy criterion
          then group_files_loop func file_path_names (setdefault_append groups criterion filename)
          else group_files_loop func file_path_names groups)"

definition group_files :: "path list \<Rightarrow> (path \<Rightarrow> error + pyval) \<Rightarrow> error + path list list" where
  "group_files file_path_names func =
     (case group_files_loop func file_path_names [] of
        Inl e \<Rightarrow> Inl e
      | Inr groups \<Rightarrow> Inr [grp \<leftarrow> map snd groups. length grp > 1])"

section \<open>Grouping by size and by checksum\<close>

text \<open>\<^verbatim>\<open>os.path.getsize\<close> is \<^verbatim>\<open>os.stat(path).st_size\<close>; nothing catches its exception.\<close>

definition getsize :: "filesystem \<Rightarrow> path \<Rightarrow> error + pyval" where
  "getsize fs p = (case os_stat fs p of Inl e \<Rightarrow> Inl e | Inr st \<Rightarrow> Inr (PyInt (int (st_size st))))"

definition group_files_by_size :: "filesystem \<Rightarrow> path list \<Rightarrow> error + path list list" where
  "group_files_by_size fs file_path_names = group_files file_path_names (getsize fs)"

text \<open>
  \<^verbatim>\<open>hashlib.md5\<close> is a library function: the digest is a parameter \<open>md5\<close> of the
  model, a function from the bytes to 128 bits. \<^verbatim>\<open>hexdigest\<close> writes the 128 bits as
  32 lower-case hexadecimal digits.
\<close>

definition hex_digit :: "nat \<Rightarrow> char" where
  "hex_digit d = ''0123456789abcdef'' ! d"

definition hexdigest :: "128 word \<Rightarrow> string" where
  "hexdigest w = map (\<lambda>i. hex_digit (unat (drop_bit (4 * (31 - i)) w AND 15))) [0..<32]"

text \<open>
  \<^verbatim>\<open>get_file_checksum\<close>: the \<^verbatim>\<open>try\<close> covers \<^verbatim>\<open>open\<close> and \<^verbatim>\<open>read\<close>, and
  \<^verbatim>\<open>except OSError\<close> returns \<^verbatim>\<open>None\<close>.
\<close>

definition get_file_checksum :: "(byte list \<Rightarrow> 128 word) \<Rightarrow> filesystem \<Rightarrow> path \<Rightarrow> pyval" where
  "get_file_checksum md5 fs file_path =
     (case open_rb fs file_path of
        Inl OSError \<Rightarrow> PyNone
      | Inr file \<Rightarrow>
          (case read_all file of
             Inl OSError \<Rightarrow> PyNone
           | Inr bs \<Rightarrow> PyStr (hexdigest (md5 bs))))"

definition group_files_by_checksum ::
  "(byte list \<Rightarrow> 128 word) \<Rightarrow> filesystem \<Rightarrow> path list \<Rightarrow> error + path list list" where
  "group_files_by_checksum md5 fs file_path_names =
     group_files file_path_names (\<lambda>p. Inr (get_file_checksum md5 fs p))"

section \<open>\<^verbatim>\<open>find_duplicate_files\<close>: the hash pipeline\<close>

text \<open>The \<^verbatim>\<open>for group in group_files_by_size(...)\<close> loop with \<^verbatim>\<open>groups.extend\<close>.\<close>

fun find_duplicate_files_loop ::
  "(byte list \<Rightarrow> 128 word) \<Rightarrow> filesystem \<Rightarrow> path list list \<Rightarrow> path list list
     \<Rightarrow> error + path list list" where
  "find_duplicate_files_loop md5 fs [] groups = Inr groups"
| "find_duplicate_files_loop md5 fs (grp # rest) groups =
     (case group_files_by_checksum md5 fs grp of
        Inl e \<Rightarrow> Inl e
      | Inr found \<Rightarrow> find_duplicate_files_loop md5 fs rest (groups @ found))"

definition find_duplicate_files ::
  "(byte list \<Rightarrow> 128 word) \<Rightarrow> filesystem \<Rightarrow> path list \<Rightarrow> error + path list list" where
  "find_duplicate_files md5 fs file_path_names =
     (case group_files_by_size fs file_path_names of
        Inl e \<Rightarrow> Inl e
      | Inr by_size \<Rightarrow> find_duplicate_files_loop md5 fs by_size [])"

section \<open>\<^verbatim>\<open>compare_files\<close>\<close>

definition BUFSIZE :: nat where
  "BUFSIZE = 8 * 1024"

text \<open>\<^verbatim>\<open>_sig\<close>: the pair of the file type and the size.\<close>

definition sig :: "stat_result \<Rightarrow> file_type \<times> nat" where
  "sig st = (st_fmt st, st_size st)"

text \<open>
  The \<^verbatim>\<open>while True\<close> loop of \<^verbatim>\<open>_do_compare\<close>. It runs inside the \<^verbatim>\<open>try\<close>, so a
  failing \<^verbatim>\<open>read\<close> makes the function return \<^verbatim>\<open>False\<close>. The loop changes the two
  file objects: the model returns, with the value of the \<^verbatim>\<open>return\<close>, the two readers
  as the loop leaves them, which shows how far each file was read.
\<close>

function do_compare_loop :: "nat \<Rightarrow> reader \<Rightarrow> reader \<Rightarrow> bool \<times> reader \<times> reader" where
  "do_compare_loop bufsize fp1 fp2 =
     (case read_n fp1 bufsize of
        Inl OSError \<Rightarrow> (False, fp1, fp2)
      | Inr (b1, fp1') \<Rightarrow>
          (case read_n fp2 bufsize of
             Inl OSError \<Rightarrow> (False, fp1', fp2)
           | Inr (b2, fp2') \<Rightarrow>
               if b1 \<noteq> b2 then (False, fp1', fp2')
               else if b1 = [] then (True, fp1', fp2')
               else do_compare_loop bufsize fp1' fp2'))"
  by pat_completeness auto

lemma read_n_shrinks:
  assumes "read_n fp n = Inr (b, fp')" and "b \<noteq> []"
  shows "length (pending fp') < length (pending fp)"
proof -
  from assms have b: "b = take n (pending fp)" and p: "pending fp' = drop n (pending fp)"
    by (auto simp: read_n_def Let_def split: option.splits if_splits)
  from b \<open>b \<noteq> []\<close> have "0 < n" and "pending fp \<noteq> []"
    by auto
  with p show ?thesis
    by simp
qed

termination do_compare_loop
  by (relation "measure (\<lambda>(bufsize, fp1, fp2). length (pending fp1))")
    (auto dest: read_n_shrinks)

declare do_compare_loop.simps [simp del]

text \<open>
  \<^verbatim>\<open>_do_compare\<close>: both files are opened inside the \<^verbatim>\<open>try\<close> as well, the first one
  first. The \<^verbatim>\<open>with\<close> statement closes them, so only the value of the \<^verbatim>\<open>return\<close> is
  left.
\<close>

definition do_compare :: "filesystem \<Rightarrow> path \<Rightarrow> path \<Rightarrow> bool" where
  "do_compare fs file1 file2 =
     (case open_rb fs file1 of
        Inl OSError \<Rightarrow> False
      | Inr fp1 \<Rightarrow>
          (case open_rb fs file2 of
             Inl OSError \<Rightarrow> False
           | Inr fp2 \<Rightarrow> fst (do_compare_loop BUFSIZE fp1 fp2)))"

text \<open>The two \<^verbatim>\<open>stat\<close> calls stand outside every \<^verbatim>\<open>try\<close>.\<close>

definition compare_files :: "filesystem \<Rightarrow> path \<Rightarrow> path \<Rightarrow> error + bool" where
  "compare_files fs f1 f2 =
     (case os_stat fs f1 of
        Inl e \<Rightarrow> Inl e
      | Inr st1 \<Rightarrow>
          (case os_stat fs f2 of
             Inl e \<Rightarrow> Inl e
           | Inr st2 \<Rightarrow>
               (let s1 = sig st1; s2 = sig st2 in
                if fst s1 \<noteq> S_IFREG \<or> fst s2 \<noteq> S_IFREG then Inr False
                else if snd s1 \<noteq> snd s2 then Inr False
                else Inr (do_compare fs f1 f2))))"

section \<open>\<^verbatim>\<open>find_duplicate_files_by_comparing\<close>: the comparison pipeline\<close>

text \<open>
  The inner loop \<^verbatim>\<open>for filename in file_path_names[1:]\<close>, which appends to
  \<^verbatim>\<open>group_duplicate_files\<close> every file equal to \<^verbatim>\<open>current\<close>.
\<close>

fun compare_with_current :: "filesystem \<Rightarrow> path \<Rightarrow> path list \<Rightarrow> path list \<Rightarrow> error + path list" where
  "compare_with_current fs current [] group_duplicate_files = Inr group_duplicate_files"
| "compare_with_current fs current (filename # rest) group_duplicate_files =
     (case compare_files fs current filename of
        Inl e \<Rightarrow> Inl e
      | Inr same \<Rightarrow>
          compare_with_current fs current rest
            (if same then group_duplicate_files @ [filename] else group_duplicate_files))"

lemma compare_with_current_keeps:
  "compare_with_current fs current rest acc = Inr found \<Longrightarrow> set acc \<subseteq> set found"
proof (induction rest arbitrary: acc)
  case Nil
  then show ?case by simp
next
  case (Cons filename rest)
  then obtain same where
    "compare_with_current fs current rest (if same then acc @ [filename] else acc) = Inr found"
    by (auto split: sum.splits)
  from Cons.IH [OF this] show ?case
    by (auto split: if_splits)
qed

text \<open>
  The outer loop \<^verbatim>\<open>while file_path_names\<close>. It ends: \<^verbatim>\<open>current\<close> is in its own
  group, so the list comprehension that rebuilds \<^verbatim>\<open>file_path_names\<close> drops at least
  one element.
\<close>

function find_duplicate_files_by_comparing_loop ::
  "filesystem \<Rightarrow> path list \<Rightarrow> path list list \<Rightarrow> error + path list list" where
  "find_duplicate_files_by_comparing_loop fs [] groups = Inr groups"
| "find_duplicate_files_by_comparing_loop fs (current # rest) groups =
     (case compare_with_current fs current rest [current] of
        Inl e \<Rightarrow> Inl e
      | Inr group_duplicate_files \<Rightarrow>
          find_duplicate_files_by_comparing_loop fs
            [e \<leftarrow> current # rest. e \<notin> set group_duplicate_files]
            (if length group_duplicate_files > 1 then groups @ [group_duplicate_files]
             else groups))"
  by pat_completeness auto

termination find_duplicate_files_by_comparing_loop
proof (relation "measure (\<lambda>(fs, file_path_names, groups). length file_path_names)")
  fix fs :: filesystem and current :: path and rest groups found
  assume "compare_with_current fs current rest [current] = Inr found"
  then have "current \<in> set found"
    using compare_with_current_keeps by fastforce
  then have "length [e \<leftarrow> current # rest. e \<notin> set found] \<le> length rest"
    by simp
  then show "((fs, [e \<leftarrow> current # rest. e \<notin> set found],
               if 1 < length found then groups @ [found] else groups),
              fs, current # rest, groups)
             \<in> measure (\<lambda>(fs, file_path_names, groups). length file_path_names)"
    by simp
qed simp

definition find_duplicate_files_by_comparing :: "filesystem \<Rightarrow> path list \<Rightarrow> error + path list list" where
  "find_duplicate_files_by_comparing fs file_path_names =
     find_duplicate_files_by_comparing_loop fs file_path_names []"

section \<open>\<^verbatim>\<open>scan_files\<close>\<close>

text \<open>
  \<^verbatim>\<open>os.path.join\<close> of two components on POSIX: an absolute second component replaces
  the first, otherwise one slash separates them.
\<close>

definition join :: "path \<Rightarrow> string \<Rightarrow> path" where
  "join a b =
     (if b \<noteq> [] \<and> hd b = CHR ''/'' then b
      else if a = [] \<or> last a = CHR ''/'' then a @ b
      else a @ ''/'' @ b)"

text \<open>
  \<^verbatim>\<open>os.walk\<close>, \<^verbatim>\<open>abspath\<close> and \<^verbatim>\<open>expanduser\<close> are library functions, parameters
  of the model: \<open>walk start\<close> is the list of the triples \<open>(root, dirs, files)\<close> the
  generator yields. What it yields is up to the library: the model assumes nothing
  about it.
\<close>

definition scan_files ::
  "(path \<Rightarrow> (path \<times> string list \<times> string list) list) \<Rightarrow> (string \<Rightarrow> path) \<Rightarrow> (string \<Rightarrow> string)
     \<Rightarrow> filesystem \<Rightarrow> string \<Rightarrow> path list" where
  "scan_files walk abspath expanduser fs path =
     filter (\<lambda>x. \<not> islink fs x)
       (concat (map (\<lambda>(root, _, files). map (join root) files) (walk (abspath (expanduser path)))))"

section \<open>Notions used in the statements\<close>

text \<open>
  The files of a list whose criterion is \<open>k\<close>, in the order of the list; no file at all
  for a criterion Python takes for false.
\<close>

definition bucket :: "(path \<Rightarrow> error + pyval) \<Rightarrow> path list \<Rightarrow> pyval \<Rightarrow> path list" where
  "bucket func file_path_names k =
     (if truthy k then [x \<leftarrow> file_path_names. func x = Inr k] else [])"

text \<open>No two groups at different positions of the list share a member.\<close>

definition disjoint_groups :: "'a list list \<Rightarrow> bool" where
  "disjoint_groups gs = sorted_wrt (\<lambda>g h. set g \<inter> set h = {}) gs"

text \<open>No read up to the end of the file fails: the bad byte, if any, lies beyond it.\<close>

definition intact :: "reader \<Rightarrow> bool" where
  "intact fp = (case until_bad fp of None \<Rightarrow> True | Some k \<Rightarrow> length (pending fp) \<le> k)"

text \<open>\<^verbatim>\<open>open\<close> succeeds on the path and so does every read up to the end of the file.\<close>

definition readable :: "filesystem \<Rightarrow> path \<Rightarrow> bool" where
  "readable fs p =
     (case contents (fs p) of
        None \<Rightarrow> False
      | Some bs \<Rightarrow> (case bad_offset (fs p) of None \<Rightarrow> True | Some k \<Rightarrow> length bs \<le> k))"


text \<open>
  Two paths that \<^verbatim>\<open>stat\<close> reports as regular files of one size, both readable to the
  end, with the same bytes.
\<close>

definition same_file :: "filesystem \<Rightarrow> path \<Rightarrow> path \<Rightarrow> bool" where
  "same_file fs f1 f2 =
     (case (status (fs f1), status (fs f2)) of
        (Some st1, Some st2) \<Rightarrow>
          st_fmt st1 = S_IFREG \<and> st_fmt st2 = S_IFREG \<and> st_size st1 = st_size st2 \<and>
          readable fs f1 \<and> readable fs f2 \<and> contents (fs f1) = contents (fs f2)
      | _ \<Rightarrow> False)"

text \<open>
  The path is a regular file that holds the bytes \<open>bs\<close>: \<^verbatim>\<open>stat\<close> reports a regular
  file of that many bytes, and \<^verbatim>\<open>open\<close> and \<^verbatim>\<open>read\<close> deliver them.
\<close>

definition regular_file :: "filesystem \<Rightarrow> path \<Rightarrow> byte list \<Rightarrow> bool" where
  "regular_file fs p bs \<longleftrightarrow>
     status (fs p) = Some \<lparr>st_fmt = S_IFREG, st_size = length bs\<rparr> \<and>
     contents (fs p) = Some bs \<and> readable fs p"

section \<open>An example tree\<close>

text \<open>
  The tree of the specification's scenario, with some more entries: under \<^verbatim>\<open>/t\<close>,
  \<^verbatim>\<open>a.txt\<close> and \<^verbatim>\<open>b.txt\<close> hold \<^verbatim>\<open>hello\<close>, \<^verbatim>\<open>c.txt\<close> holds \<^verbatim>\<open>world\<close>,
  \<^verbatim>\<open>link.txt\<close> is a symbolic link to \<^verbatim>\<open>a.txt\<close>, \<^verbatim>\<open>e1\<close> and \<^verbatim>\<open>e2\<close> are empty,
  \<^verbatim>\<open>long\<close> holds \<^verbatim>\<open>helloworld\<close>, \<^verbatim>\<open>bad\<close> holds \<^verbatim>\<open>hello\<close> on a device that fails
  at the third byte, \<^verbatim>\<open>locked\<close> holds \<^verbatim>\<open>hello\<close> and cannot be opened, and
  \<^verbatim>\<open>big1\<close>, \<^verbatim>\<open>big2\<close> and \<^verbatim>\<open>big3\<close> are 8193 bytes long: the first 8192 bytes are
  zero, the last one is 1 in \<^verbatim>\<open>big1\<close> and \<^verbatim>\<open>big3\<close> and 2 in \<^verbatim>\<open>big2\<close>;
  \<^verbatim>\<open>big4\<close> and \<^verbatim>\<open>big5\<close> are 8193 bytes long too and differ in the last byte of the
  first 8192 only. Beside \<^verbatim>\<open>/t\<close> there is the directory \<^verbatim>\<open>/p\<close>, which its user may
  list but not search (mode 444): it holds the symbolic link \<^verbatim>\<open>link.txt\<close>, on which
  \<^verbatim>\<open>os.lstat\<close>, \<^verbatim>\<open>os.stat\<close> and \<^verbatim>\<open>open\<close> all fail for lack of the search
  permission. No other path exists.
\<close>

definition hello :: "byte list" where
  "hello = [104, 101, 108, 108, 111]"

definition world :: "byte list" where
  "world = [119, 111, 114, 108, 100]"

definition regular :: "byte list \<Rightarrow> node" where
  "regular bs =
     \<lparr>is_link = False, lstatus = Some S_IFREG,
      status = Some \<lparr>st_fmt = S_IFREG, st_size = length bs\<rparr>,
      contents = Some bs, bad_offset = None\<rparr>"

definition absent :: node where
  "absent =
     \<lparr>is_link = False, lstatus = None, status = None, contents = None, bad_offset = None\<rparr>"

definition demo_fs :: filesystem where
  "demo_fs p =
     (if p = ''/t/a.txt'' \<or> p = ''/t/b.txt'' then regular hello
      else if p = ''/t/c.txt'' then regular world
      else if p = ''/t/link.txt'' then (regular hello)\<lparr>is_link := True, lstatus := Some S_IFLNK\<rparr>
      else if p = ''/t/e1'' \<or> p = ''/t/e2'' then regular []
      else if p = ''/t/long'' then regular (hello @ world)
      else if p = ''/t/bad'' then (regular hello)\<lparr>bad_offset := Some 2\<rparr>
      else if p = ''/t/locked'' then (regular hello)\<lparr>contents := None\<rparr>
      else if p = ''/t/big1'' \<or> p = ''/t/big3'' then regular (replicate 8192 0 @ [1])
      else if p = ''/t/big2'' then regular (replicate 8192 0 @ [2])
      else if p = ''/t/big4'' then regular (replicate 8191 0 @ [1, 0])
      else if p = ''/t/big5'' then regular (replicate 8191 0 @ [2, 0])
      else if p = ''/p/link.txt'' then absent\<lparr>is_link := True\<rparr>
      else absent)"

text \<open>
  What \<^verbatim>\<open>os.walk\<close> yields on \<^verbatim>\<open>/t\<close>, scanned as in the specification's scenario
  when it held \<^verbatim>\<open>a.txt\<close>, \<^verbatim>\<open>b.txt\<close>, \<^verbatim>\<open>c.txt\<close> and \<^verbatim>\<open>link.txt\<close> only, and on
  \<^verbatim>\<open>/p\<close>: \<^verbatim>\<open>os.walk\<close> lists a directory with \<^verbatim>\<open>scandir\<close>, which needs the read
  permission only, and puts an entry among \<^verbatim>\<open>files\<close> when it cannot tell that it is a
  directory.
\<close>

definition demo_walk :: "path \<Rightarrow> (path \<times> string list \<times> string list) list" where
  "demo_walk start =
     (if start = ''/t'' then [(''/t'', [], [''a.txt'', ''b.txt'', ''c.txt'', ''link.txt''])]
      else if start = ''/p'' then [(''/p'', [], [''link.txt''])]
      else [])"

text \<open>
  A digest for the examples. The theorems hold for every function \<open>md5\<close>; the examples
  need one, and none of them depends on two contents having different digests.
\<close>

definition demo_md5 :: "byte list \<Rightarrow> 128 word" where
  "demo_md5 bs = word_of_nat (length bs)"

section \<open>Lemmas\<close>

subsection \<open>The dictionary of \<^verbatim>\<open>group_files\<close>\<close>

lemma map_of_setdefault_append:
  "map_of (setdefault_append groups k v) =
     (map_of groups)(k \<mapsto> (case map_of groups k of None \<Rightarrow> [v] | Some vs \<Rightarrow> vs @ [v]))"
  by (induction groups k v rule: setdefault_append.induct) (auto simp: fun_eq_iff)

lemma keys_setdefault_append:
  "fst ` set (setdefault_append groups k v) = insert k (fst ` set groups)"
  by (induction groups k v rule: setdefault_append.induct) auto

lemma distinct_setdefault_append:
  "distinct (map fst groups) \<Longrightarrow> distinct (map fst (setdefault_append groups k v))"
  by (induction groups k v rule: setdefault_append.induct) (auto simp: keys_setdefault_append)

lemma bucket_Cons:
  "bucket func (x # xs) k =
     (if truthy k \<and> func x = Inr k then x # bucket func xs k else bucket func xs k)"
  by (simp add: bucket_def)

lemma group_files_loop_distinct:
  "group_files_loop func names groups = Inr groups' \<Longrightarrow> distinct (map fst groups)
     \<Longrightarrow> distinct (map fst groups')"
proof (induction names arbitrary: groups)
  case Nil
  then show ?case by simp
next
  case (Cons x names)
  then show ?case
    by (auto split: sum.splits if_splits intro: distinct_setdefault_append)
qed

lemma group_files_loop_map_of:
  "group_files_loop func names groups = Inr groups' \<Longrightarrow>
   map_of groups' k =
     (case map_of groups k of
        None \<Rightarrow> if bucket func names k = [] then None else Some (bucket func names k)
      | Some vs \<Rightarrow> Some (vs @ bucket func names k))"
proof (induction names arbitrary: groups)
  case Nil
  then show ?case by (simp add: bucket_def split: option.splits)
next
  case (Cons x names)
  from Cons.prems obtain c where c: "func x = Inr c"
    by (auto split: sum.splits)
  show ?case
  proof (cases "truthy c")
    case True
    with Cons.prems c have "group_files_loop func names (setdefault_append groups c x) = Inr groups'"
      by simp
    from Cons.IH [OF this] True c show ?thesis
      by (auto simp: map_of_setdefault_append bucket_Cons split: option.splits)
  next
    case False
    with Cons.prems c have "group_files_loop func names groups = Inr groups'"
      by simp
    from Cons.IH [OF this] False c show ?thesis
      by (auto simp: bucket_Cons split: option.splits)
  qed
qed

lemma group_files_loop_total:
  "(\<forall>x \<in> set names. \<exists>k. func x = Inr k) \<Longrightarrow> \<exists>groups'. group_files_loop func names groups = Inr groups'"
  by (induction names arbitrary: groups) auto

lemma group_files_loop_error:
  "group_files_loop func names groups = Inl e \<Longrightarrow> \<exists>x \<in> set names. func x = Inl e"
  by (induction names arbitrary: groups) (auto split: sum.splits if_splits)

lemma group_files_set:
  assumes "group_files names func = Inr found"
  shows "set found = {g. \<exists>k. g = bucket func names k \<and> 1 < length g}"
proof -
  from assms obtain groups where
    loop: "group_files_loop func names [] = Inr groups" and
    found: "found = [grp \<leftarrow> map snd groups. length grp > 1]"
    by (auto simp: group_files_def split: sum.splits)
  have d: "distinct (map fst groups)"
    using group_files_loop_distinct [OF loop] by simp
  have m: "map_of groups k = (if bucket func names k = [] then None else Some (bucket func names k))" for k
    using group_files_loop_map_of [OF loop, of k] by simp
  have "set (map snd groups) = {g. \<exists>k. g = bucket func names k \<and> g \<noteq> []}"
  proof (intro set_eqI iffI)
    fix g assume "g \<in> set (map snd groups)"
    then obtain k where "(k, g) \<in> set groups" by auto
    with d have "map_of groups k = Some g" by simp
    with m [of k] show "g \<in> {g. \<exists>k. g = bucket func names k \<and> g \<noteq> []}"
      by (auto split: if_splits)
  next
    fix g assume "g \<in> {g. \<exists>k. g = bucket func names k \<and> g \<noteq> []}"
    then obtain k where "g = bucket func names k" "g \<noteq> []" by auto
    with m [of k] have "map_of groups k = Some g" by simp
    then have "(k, g) \<in> set groups" by (rule map_of_SomeD)
    then show "g \<in> set (map snd groups)" by force
  qed
  with found show ?thesis by auto
qed

subsection \<open>Disjoint groups\<close>

lemma disjoint_groups_simps [simp]:
  "disjoint_groups []"
  "disjoint_groups (g # gs) = ((\<forall>h \<in> set gs. set g \<inter> set h = {}) \<and> disjoint_groups gs)"
  by (simp_all add: disjoint_groups_def)

lemma disjoint_groups_append:
  "disjoint_groups (gs @ hs) =
     (disjoint_groups gs \<and> disjoint_groups hs \<and> (\<forall>g \<in> set gs. \<forall>h \<in> set hs. set g \<inter> set h = {}))"
  by (simp add: disjoint_groups_def sorted_wrt_append)

lemma disjoint_groups_filter:
  "disjoint_groups gs \<Longrightarrow> disjoint_groups (filter P gs)"
  by (simp add: disjoint_groups_def sorted_wrt_filter)

lemma disjoint_groups_nth:
  "disjoint_groups gs \<Longrightarrow> i < j \<Longrightarrow> j < length gs \<Longrightarrow> set (gs ! i) \<inter> set (gs ! j) = {}"
  by (simp add: disjoint_groups_def sorted_wrt_iff_nth_less)

lemma disjoint_groups_once:
  assumes "disjoint_groups gs" and "grp \<in> set gs" and "x \<in> set grp" and "Q grp"
    and "\<And>h. Q h \<Longrightarrow> x \<in> set h"
  shows "length (filter Q gs) = 1"
  using assms(1,2)
proof (induction gs)
  case Nil
  then show ?case by simp
next
  case (Cons g gs)
  show ?case
  proof (cases "grp = g")
    case True
    have "filter Q gs = []"
    proof (rule ccontr)
      assume "filter Q gs \<noteq> []"
      then obtain h where "h \<in> set gs" "Q h"
        by (auto simp: filter_empty_conv)
      with assms(5) Cons.prems(1) True \<open>x \<in> set grp\<close> show False
        by auto
    qed
    with True \<open>Q grp\<close> show ?thesis by simp
  next
    case False
    with Cons.prems have in_tl: "grp \<in> set gs" and d: "disjoint_groups gs"
      and "set g \<inter> set grp = {}"
      by auto
    with \<open>x \<in> set grp\<close> have "x \<notin> set g" by auto
    with assms(5) have "\<not> Q g" by auto
    with Cons.IH [OF d in_tl] show ?thesis by simp
  qed
qed

lemma disjoint_groups_concat:
  assumes "disjoint_groups sgs"
    and "\<And>sg. sg \<in> set sgs \<Longrightarrow> disjoint_groups (f sg)"
    and "\<And>sg grp. sg \<in> set sgs \<Longrightarrow> grp \<in> set (f sg) \<Longrightarrow> set grp \<subseteq> set sg"
  shows "disjoint_groups (concat (map f sgs))"
  using assms
proof (induction sgs)
  case Nil
  then show ?case by simp
next
  case (Cons sg sgs)
  have "set g \<inter> set h = {}" if "g \<in> set (f sg)" and "h \<in> set (concat (map f sgs))" for g h
  proof -
    from that(2) obtain sg' where sg': "sg' \<in> set sgs" "h \<in> set (f sg')" by auto
    with Cons.prems(1) have "set sg \<inter> set sg' = {}" by auto
    moreover have "set g \<subseteq> set sg" using Cons.prems(3) that(1) by simp
    moreover have "set h \<subseteq> set sg'" using Cons.prems(3) sg' by simp
    ultimately show ?thesis by blast
  qed
  moreover have "disjoint_groups (concat (map f sgs))"
    using Cons by simp
  moreover have "disjoint_groups (f sg)"
    using Cons.prems(2) by simp
  ultimately show ?case
    by (simp add: disjoint_groups_append)
qed

subsection \<open>The groups of \<^verbatim>\<open>group_files\<close> and of the hash pipeline\<close>

lemma bucket_member:
  "x \<in> set (bucket func names k) \<longleftrightarrow> x \<in> set names \<and> func x = Inr k \<and> truthy k"
  by (auto simp: bucket_def)

lemma disjoint_groups_values:
  assumes "distinct (map fst groups)"
    and "\<And>k vs x. (k, vs) \<in> set groups \<Longrightarrow> x \<in> set vs \<Longrightarrow> key x = k"
  shows "disjoint_groups (map snd groups)"
  using assms
proof (induction groups)
  case Nil
  then show ?case by simp
next
  case (Cons kv groups)
  obtain k vs where kv: "kv = (k, vs)" by (cases kv)
  have "set vs \<inter> set ws = {}" if "(k', ws) \<in> set groups" for k' ws
  proof -
    from that Cons.prems(1) kv have "k' \<noteq> k" by force
    moreover have "\<And>x. x \<in> set vs \<Longrightarrow> key x = k" using Cons.prems(2) [of k vs] kv by simp
    moreover have "\<And>x. x \<in> set ws \<Longrightarrow> key x = k'" using Cons.prems(2) [of k' ws] that by simp
    ultimately show ?thesis by blast
  qed
  moreover have "disjoint_groups (map snd groups)"
    using Cons by auto
  ultimately show ?case
    using kv by fastforce
qed

lemma group_files_disjoint:
  assumes "group_files names func = Inr found"
  shows "disjoint_groups found"
proof -
  from assms obtain groups where
    loop: "group_files_loop func names [] = Inr groups" and
    found: "found = [grp \<leftarrow> map snd groups. length grp > 1]"
    by (auto simp: group_files_def split: sum.splits)
  have d: "distinct (map fst groups)"
    using group_files_loop_distinct [OF loop] by simp
  have m: "map_of groups k = (if bucket func names k = [] then None else Some (bucket func names k))" for k
    using group_files_loop_map_of [OF loop, of k] by simp
  have "projr (func x) = k" if "(k, vs) \<in> set groups" and "x \<in> set vs" for k vs x
  proof -
    from that(1) d have "map_of groups k = Some vs" by simp
    with m [of k] have "vs = bucket func names k" by (auto split: if_splits)
    with that(2) show ?thesis by (simp add: bucket_member)
  qed
  with d have "disjoint_groups (map snd groups)"
    by (rule disjoint_groups_values)
  with found show ?thesis
    by (simp add: disjoint_groups_filter)
qed

lemma group_files_total:
  "(\<And>x. x \<in> set names \<Longrightarrow> \<exists>k. func x = Inr k) \<Longrightarrow> \<exists>found. group_files names func = Inr found"
  using group_files_loop_total [of names func "[]"] by (auto simp: group_files_def)

lemma group_files_error:
  "group_files names func = Inl e \<Longrightarrow> \<exists>x \<in> set names. func x = Inl e"
  using group_files_loop_error [of func names "[]" e]
  by (auto simp: group_files_def split: sum.splits)

lemma group_files_by_checksum_total:
  "\<exists>found. group_files_by_checksum md5 fs names = Inr found"
  unfolding group_files_by_checksum_def by (rule group_files_total) simp

lemma find_duplicate_files_loop_concat:
  "find_duplicate_files_loop md5 fs sgs acc =
     Inr (acc @ concat (map (\<lambda>sg. projr (group_files_by_checksum md5 fs sg)) sgs))"
proof (induction sgs arbitrary: acc)
  case Nil
  then show ?case by simp
next
  case (Cons sg sgs)
  obtain found where "group_files_by_checksum md5 fs sg = Inr found"
    using group_files_by_checksum_total by blast
  with Cons.IH show ?case by simp
qed

subsection \<open>Reading and comparing\<close>

lemma read_n_Inl: "read_n fp n = Inl e \<Longrightarrow> \<not> intact fp"
  by (auto simp: read_n_def intact_def Let_def split: option.splits if_splits)

lemma read_n_Inr:
  assumes "read_n fp n = Inr (b, fp')"
  shows "b = take n (pending fp)" and "pending fp' = drop n (pending fp)"
    and "intact fp' = intact fp"
  using assms
  by (auto simp: read_n_def intact_def Let_def split: option.splits if_splits)

lemma do_compare_loop_iff:
  "0 < n \<Longrightarrow>
   fst (do_compare_loop n fp1 fp2) \<longleftrightarrow> pending fp1 = pending fp2 \<and> intact fp1 \<and> intact fp2"
proof (induction n fp1 fp2 rule: do_compare_loop.induct)
  case (1 n fp1 fp2)
  show ?case
  proof (cases "read_n fp1 n")
    case (Inl e)
    then show ?thesis
      by (cases e) (auto simp: do_compare_loop.simps [of n fp1 fp2] dest: read_n_Inl)
  next
    case r1: (Inr r)
    obtain b1 fp1' where r: "r = (b1, fp1')" by (cases r)
    note a1 = read_n_Inr [OF r1 [unfolded r]]
    show ?thesis
    proof (cases "read_n fp2 n")
      case (Inl e)
      then show ?thesis
        using r1 r by (cases e) (auto simp: do_compare_loop.simps [of n fp1 fp2] dest: read_n_Inl)
    next
      case r2: (Inr r')
      obtain b2 fp2' where r': "r' = (b2, fp2')" by (cases r')
      note a2 = read_n_Inr [OF r2 [unfolded r']]
      show ?thesis
      proof (cases "b1 = b2")
        case False
        with a1(1) a2(1) have "pending fp1 \<noteq> pending fp2" by auto
        with False r1 r r2 r' show ?thesis
          by (simp add: do_compare_loop.simps [of n fp1 fp2])
      next
        case True
        show ?thesis
        proof (cases "b1 = []")
          case e: True
          with a1(1) \<open>0 < n\<close> have p1: "pending fp1 = []" by simp
          from e True a2(1) \<open>0 < n\<close> have p2: "pending fp2 = []" by simp
          from p1 p2 have "intact fp1" "intact fp2"
            by (simp_all add: intact_def split: option.splits)
          with p1 p2 e True r1 r r2 r' show ?thesis
            by (simp add: do_compare_loop.simps [of n fp1 fp2])
        next
          case ne: False
          have eq: "pending fp1 = pending fp2 \<longleftrightarrow> pending fp1' = pending fp2'"
          proof
            assume "pending fp1 = pending fp2"
            with a1(2) a2(2) show "pending fp1' = pending fp2'" by simp
          next
            assume "pending fp1' = pending fp2'"
            with a1 a2 True have "take n (pending fp1) @ drop n (pending fp1)
              = take n (pending fp2) @ drop n (pending fp2)" by simp
            then show "pending fp1 = pending fp2" by simp
          qed
          have "do_compare_loop n fp1 fp2 = do_compare_loop n fp1' fp2'"
            using ne True r1 r r2 r' by (simp add: do_compare_loop.simps [of n fp1 fp2])
          then have "fst (do_compare_loop n fp1 fp2) = fst (do_compare_loop n fp1' fp2')"
            by (rule arg_cong)
          also have "\<dots> \<longleftrightarrow> pending fp1' = pending fp2' \<and> intact fp1' \<and> intact fp2'"
            using "1.IH" [OF r1 _ r2] r r' True ne \<open>0 < n\<close> by simp
          finally show ?thesis
            using eq a1(3) a2(3) by simp
        qed
      qed
    qed
  qed
qed

lemma intact_open:
  "open_rb fs p = Inr fp \<Longrightarrow> intact fp = readable fs p"
  by (auto simp: open_rb_def intact_def readable_def split: option.splits)

lemma open_rb_Inl: "open_rb fs p = Inl e \<Longrightarrow> \<not> readable fs p"
  by (simp add: open_rb_def readable_def split: option.splits)

lemma open_rb_Inr: "open_rb fs p = Inr fp \<Longrightarrow> contents (fs p) = Some (pending fp)"
  by (auto simp: open_rb_def split: option.splits)

lemma do_compare_iff:
  "do_compare fs f1 f2 \<longleftrightarrow> readable fs f1 \<and> readable fs f2 \<and> contents (fs f1) = contents (fs f2)"
proof (cases "open_rb fs f1")
  case (Inl e)
  then show ?thesis
    by (cases e) (simp add: do_compare_def open_rb_Inl)
next
  case o1: (Inr fp1)
  show ?thesis
  proof (cases "open_rb fs f2")
    case (Inl e)
    then show ?thesis
      using o1 by (cases e) (simp add: do_compare_def open_rb_Inl)
  next
    case o2: (Inr fp2)
    have "do_compare fs f1 f2 = fst (do_compare_loop BUFSIZE fp1 fp2)"
      using o1 o2 by (simp add: do_compare_def)
    also have "\<dots> \<longleftrightarrow> pending fp1 = pending fp2 \<and> intact fp1 \<and> intact fp2"
      by (rule do_compare_loop_iff) (simp add: BUFSIZE_def)
    finally show ?thesis
      using intact_open [OF o1] intact_open [OF o2] open_rb_Inr [OF o1] open_rb_Inr [OF o2]
      by auto
  qed
qed





lemma compare_files_Inr:
  "compare_files fs f1 f2 = Inr b \<Longrightarrow> b = same_file fs f1 f2"
  by (auto simp: compare_files_def os_stat_def sig_def same_file_def do_compare_iff Let_def
      split: option.splits if_splits)

lemma compare_files_total:
  "status (fs f1) \<noteq> None \<Longrightarrow> status (fs f2) \<noteq> None \<Longrightarrow> \<exists>b. compare_files fs f1 f2 = Inr b"
  by (auto simp: compare_files_def os_stat_def Let_def split: option.splits)

lemma same_file_sym: "same_file fs f1 f2 \<Longrightarrow> same_file fs f2 f1"
  by (auto simp: same_file_def split: option.splits)

lemma same_file_trans: "same_file fs f1 f2 \<Longrightarrow> same_file fs f2 f3 \<Longrightarrow> same_file fs f1 f3"
  by (auto simp: same_file_def split: option.splits)

lemma same_file_refl: "same_file fs f1 f2 \<Longrightarrow> same_file fs f1 f1"
  by (auto simp: same_file_def split: option.splits)

subsection \<open>The loops of the comparison pipeline\<close>

lemma compare_with_current_Inr:
  "compare_with_current fs current rest acc = Inr found
     \<Longrightarrow> found = acc @ [x \<leftarrow> rest. same_file fs current x]"
proof (induction rest arbitrary: acc)
  case Nil
  then show ?case by simp
next
  case (Cons filename rest)
  from Cons.prems obtain same where
    c: "compare_files fs current filename = Inr same" and
    r: "compare_with_current fs current rest (if same then acc @ [filename] else acc) = Inr found"
    by (auto split: sum.splits)
  from compare_files_Inr [OF c] Cons.IH [OF r] show ?case
    by simp
qed

lemma compare_with_current_total:
  "status (fs current) \<noteq> None \<Longrightarrow> \<forall>p \<in> set rest. status (fs p) \<noteq> None
     \<Longrightarrow> \<exists>found. compare_with_current fs current rest acc = Inr found"
proof (induction rest arbitrary: acc)
  case Nil
  then show ?case by simp
next
  case (Cons filename rest)
  then obtain b where "compare_files fs current filename = Inr b"
    using compare_files_total [of fs current filename] by auto
  with Cons show ?case by simp
qed

lemma by_comparing_loop_total:
  "\<forall>p \<in> set names. status (fs p) \<noteq> None
     \<Longrightarrow> \<exists>found. find_duplicate_files_by_comparing_loop fs names groups = Inr found"
proof (induction fs names groups rule: find_duplicate_files_by_comparing_loop.induct)
  case (1 fs groups)
  then show ?case by simp
next
  case (2 fs current rest groups)
  then obtain grp where g: "compare_with_current fs current rest [current] = Inr grp"
    using compare_with_current_total [of fs current rest "[current]"] by auto
  have "\<forall>p \<in> set [e \<leftarrow> current # rest. e \<notin> set grp]. status (fs p) \<noteq> None"
    using "2.prems" by auto
  from "2.IH" [OF g this] g show ?case
    by simp
qed

text \<open>Every emitted group is an accumulated one or a pivot followed by the files equal to it.\<close>

lemma by_comparing_loop_groups:
  "find_duplicate_files_by_comparing_loop fs names groups = Inr found \<Longrightarrow> grp \<in> set found
     \<Longrightarrow> grp \<in> set groups \<or>
         (\<exists>current rest. set (current # rest) \<subseteq> set names \<and> 1 < length grp \<and>
            grp = current # [x \<leftarrow> rest. same_file fs current x])"
proof (induction fs names groups rule: find_duplicate_files_by_comparing_loop.induct)
  case (1 fs groups)
  then show ?case by simp
next
  case (2 fs current rest groups)
  from "2.prems"(1) obtain g where
    g: "compare_with_current fs current rest [current] = Inr g" and
    l: "find_duplicate_files_by_comparing_loop fs [e \<leftarrow> current # rest. e \<notin> set g]
          (if length g > 1 then groups @ [g] else groups) = Inr found"
    by (auto split: sum.splits)
  have g_eq: "g = current # [x \<leftarrow> rest. same_file fs current x]"
    using compare_with_current_Inr [OF g] by simp
  from "2.IH" [OF g l "2.prems"(2)] show ?case
  proof
    assume "grp \<in> set (if 1 < length g then groups @ [g] else groups)"
    then consider "grp \<in> set groups" | "grp = g" "1 < length g"
      by (auto split: if_splits)
    then show ?thesis
    proof cases
      case 1
      then show ?thesis by simp
    next
      case 2
      with g_eq have "set (current # rest) \<subseteq> set (current # rest) \<and> 1 < length grp \<and>
            grp = current # [x \<leftarrow> rest. same_file fs current x]" by simp
      then show ?thesis by blast
    qed
  next
    assume "\<exists>c r. set (c # r) \<subseteq> set [e \<leftarrow> current # rest. e \<notin> set g] \<and> 1 < length grp \<and>
            grp = c # [x \<leftarrow> r. same_file fs c x]"
    then obtain c r where "set (c # r) \<subseteq> set [e \<leftarrow> current # rest. e \<notin> set g]"
      "1 < length grp" "grp = c # [x \<leftarrow> r. same_file fs c x]" by blast
    moreover have "set [e \<leftarrow> current # rest. e \<notin> set g] \<subseteq> set (current # rest)"
      by auto
    ultimately have "set (c # r) \<subseteq> set (current # rest) \<and> 1 < length grp \<and>
            grp = c # [x \<leftarrow> r. same_file fs c x]" by blast
    then show ?thesis by blast
  qed
qed

lemma by_comparing_loop_keeps:
  "find_duplicate_files_by_comparing_loop fs names groups = Inr found \<Longrightarrow> set groups \<subseteq> set found"
proof (induction fs names groups rule: find_duplicate_files_by_comparing_loop.induct)
  case (1 fs groups)
  then show ?case by simp
next
  case (2 fs current rest groups)
  from "2.prems"(1) obtain g where
    g: "compare_with_current fs current rest [current] = Inr g" and
    l: "find_duplicate_files_by_comparing_loop fs [e \<leftarrow> current # rest. e \<notin> set g]
          (if length g > 1 then groups @ [g] else groups) = Inr found"
    by (auto split: sum.splits)
  from "2.IH" [OF g l] show ?case
    by (auto split: if_splits)
qed

lemma by_comparing_loop_disjoint:
  "find_duplicate_files_by_comparing_loop fs names groups = Inr found \<Longrightarrow> disjoint_groups groups
     \<Longrightarrow> \<forall>grp \<in> set groups. set grp \<inter> set names = {} \<Longrightarrow> disjoint_groups found"
proof (induction fs names groups rule: find_duplicate_files_by_comparing_loop.induct)
  case (1 fs groups)
  then show ?case by simp
next
  case (2 fs current rest groups)
  from "2.prems"(1) obtain g where
    g: "compare_with_current fs current rest [current] = Inr g" and
    l: "find_duplicate_files_by_comparing_loop fs [e \<leftarrow> current # rest. e \<notin> set g]
          (if length g > 1 then groups @ [g] else groups) = Inr found"
    by (auto split: sum.splits)
  have g_eq: "g = current # [x \<leftarrow> rest. same_file fs current x]"
    using compare_with_current_Inr [OF g] by simp
  then have sub: "set g \<subseteq> set (current # rest)" by auto
  have d: "disjoint_groups (if length g > 1 then groups @ [g] else groups)"
    using "2.prems"(2,3) sub by (auto simp: disjoint_groups_append)
  have "\<forall>grp \<in> set (if length g > 1 then groups @ [g] else groups).
          set grp \<inter> set [e \<leftarrow> current # rest. e \<notin> set g] = {}"
    using "2.prems"(3) by (auto split: if_splits)
  from "2.IH" [OF g l d this] show ?case .
qed

lemma by_comparing_loop_distinct:
  "find_duplicate_files_by_comparing_loop fs names groups = Inr found \<Longrightarrow> distinct names
     \<Longrightarrow> distinct (concat groups) \<Longrightarrow> set (concat groups) \<inter> set names = {}
     \<Longrightarrow> distinct (concat found)"
proof (induction fs names groups rule: find_duplicate_files_by_comparing_loop.induct)
  case (1 fs groups)
  then show ?case by simp
next
  case (2 fs current rest groups)
  from "2.prems"(1) obtain g where
    g: "compare_with_current fs current rest [current] = Inr g" and
    l: "find_duplicate_files_by_comparing_loop fs [e \<leftarrow> current # rest. e \<notin> set g]
          (if length g > 1 then groups @ [g] else groups) = Inr found"
    by (auto split: sum.splits)
  have g_eq: "g = current # [x \<leftarrow> rest. same_file fs current x]"
    using compare_with_current_Inr [OF g] by simp
  with "2.prems"(2) have dg: "distinct g" and sub: "set g \<subseteq> set (current # rest)" by auto
  have a: "distinct [e \<leftarrow> current # rest. e \<notin> set g]"
    using "2.prems"(2) by (intro distinct_filter)
  have b: "distinct (concat (if length g > 1 then groups @ [g] else groups))"
    using "2.prems"(3,4) dg sub by auto
  have c: "set (concat (if length g > 1 then groups @ [g] else groups))
      \<inter> set [e \<leftarrow> current # rest. e \<notin> set g] = {}"
    using "2.prems"(4) by (auto split: if_splits)
  from "2.IH" [OF g l a b c] show ?case .
qed

lemma two_members:
  "x \<in> set xs \<Longrightarrow> y \<in> set xs \<Longrightarrow> x \<noteq> y \<Longrightarrow> 1 < length xs"
  by (cases xs rule: remdups_adj.cases) auto

lemma by_comparing_loop_class:
  assumes "find_duplicate_files_by_comparing_loop fs names groups = Inr found"
    and "f \<in> set names" and "g \<in> set names" and "f \<noteq> g" and "same_file fs f g"
  shows "\<exists>grp \<in> set found. set grp = {p \<in> set names. same_file fs f p}"
  using assms
proof (induction fs names groups rule: find_duplicate_files_by_comparing_loop.induct)
  case (1 fs groups)
  then show ?case by simp
next
  case (2 fs current rest groups)
  note sym = same_file_sym [of fs] and trans = same_file_trans [of fs]
  note fg = \<open>same_file fs f g\<close>
  have ff: "same_file fs f f"
    using fg by (rule same_file_refl)
  from "2.prems"(1) obtain grp where
    g: "compare_with_current fs current rest [current] = Inr grp" and
    l: "find_duplicate_files_by_comparing_loop fs [e \<leftarrow> current # rest. e \<notin> set grp]
          (if length grp > 1 then groups @ [grp] else groups) = Inr found"
    by (auto split: sum.splits)
  have grp_eq: "grp = current # [x \<leftarrow> rest. same_file fs current x]"
    using compare_with_current_Inr [OF g] by simp
  show ?case
  proof (cases "same_file fs current f")
    case True
    have "set grp = {p \<in> set (current # rest). same_file fs f p}"
    proof (intro set_eqI iffI)
      fix p assume "p \<in> set grp"
      with grp_eq have p: "p \<in> set (current # rest)"
        and "p = current \<or> same_file fs current p" by auto
      then have "same_file fs f p"
        using sym [OF True] trans [OF sym [OF True]] by blast
      with p show "p \<in> {p \<in> set (current # rest). same_file fs f p}"
        by simp
    next
      fix p assume "p \<in> {p \<in> set (current # rest). same_file fs f p}"
      then have "p \<in> set (current # rest)" "same_file fs f p" by auto
      with True have "same_file fs current p" by (blast intro: trans)
      with \<open>p \<in> set (current # rest)\<close> grp_eq show "p \<in> set grp" by auto
    qed
    moreover from this "2.prems"(2,3) fg ff have "f \<in> set grp" "g \<in> set grp"
      by auto
    then have "1 < length grp" using assms(4) by (rule two_members)
    with l have "grp \<in> set found"
      using by_comparing_loop_keeps [OF l] by auto
    ultimately show ?thesis by blast
  next
    case False
    have out: "p \<notin> set grp" if "same_file fs f p" for p
    proof
      assume "p \<in> set grp"
      with grp_eq have "p = current \<or> same_file fs current p" by auto
      with that have "same_file fs current f" by (blast intro: sym trans)
      with False show False ..
    qed
    from out [OF ff] out [OF fg] "2.prems"(2,3) have
      "f \<in> set [e \<leftarrow> current # rest. e \<notin> set grp]" "g \<in> set [e \<leftarrow> current # rest. e \<notin> set grp]"
      by auto
    from "2.IH" [OF g l this assms(4) fg] obtain grp' where
      "grp' \<in> set found" "set grp' = {p \<in> set [e \<leftarrow> current # rest. e \<notin> set grp]. same_file fs f p}"
      by blast
    moreover have "{p \<in> set [e \<leftarrow> current # rest. e \<notin> set grp]. same_file fs f p}
      = {p \<in> set (current # rest). same_file fs f p}"
      using out by auto
    ultimately show ?thesis by auto
  qed
qed

subsection \<open>The hash pipeline\<close>

lemma hexdigest_length: "length (hexdigest w) = 32"
  by (simp add: hexdigest_def)

lemma hexdigest_truthy: "truthy (PyStr (hexdigest w))"
  using hexdigest_length [of w] by auto

lemma find_duplicate_files_Inr:
  assumes "find_duplicate_files md5 fs names = Inr found"
  obtains by_size where "group_files_by_size fs names = Inr by_size"
    and "found = concat (map (\<lambda>sg. projr (group_files_by_checksum md5 fs sg)) by_size)"
  using assms
  by (auto simp: find_duplicate_files_def find_duplicate_files_loop_concat split: sum.splits)

lemma find_duplicate_files_member:
  assumes "find_duplicate_files md5 fs names = Inr found" and "grp \<in> set found"
  obtains n h where "1 < length grp"
    and "grp = bucket (\<lambda>p. Inr (get_file_checksum md5 fs p)) (bucket (getsize fs) names n) h"
    and "1 < length (bucket (getsize fs) names n)"
proof -
  from assms(1) obtain by_size where
    s: "group_files_by_size fs names = Inr by_size" and
    f: "found = concat (map (\<lambda>sg. projr (group_files_by_checksum md5 fs sg)) by_size)"
    by (rule find_duplicate_files_Inr)
  from f assms(2) obtain sg where sg: "sg \<in> set by_size"
    and grp: "grp \<in> set (projr (group_files_by_checksum md5 fs sg))" by auto
  obtain cs where cs: "group_files_by_checksum md5 fs sg = Inr cs"
    using group_files_by_checksum_total by blast
  from sg group_files_set [OF s [unfolded group_files_by_size_def]] obtain n where
    n: "sg = bucket (getsize fs) names n" "1 < length sg" by auto
  from grp cs group_files_set [OF cs [unfolded group_files_by_checksum_def]] obtain h where
    "grp = bucket (\<lambda>p. Inr (get_file_checksum md5 fs p)) sg h" "1 < length grp" by auto
  with n that show thesis by blast
qed

lemma find_duplicate_files_total:
  assumes "\<forall>p \<in> set names. status (fs p) \<noteq> None"
  shows "\<exists>found. find_duplicate_files md5 fs names = Inr found"
proof -
  have "\<exists>k. getsize fs p = Inr k" if "p \<in> set names" for p
    using that assms by (auto simp: getsize_def os_stat_def split: option.splits)
  then obtain by_size where "group_files_by_size fs names = Inr by_size"
    unfolding group_files_by_size_def using group_files_total [of names "getsize fs"] by blast
  then show ?thesis
    by (simp add: find_duplicate_files_def find_duplicate_files_loop_concat)
qed

lemma find_duplicate_files_disjoint:
  assumes "find_duplicate_files md5 fs names = Inr found"
  shows "disjoint_groups found"
proof -
  from assms obtain by_size where
    s: "group_files_by_size fs names = Inr by_size" and
    f: "found = concat (map (\<lambda>sg. projr (group_files_by_checksum md5 fs sg)) by_size)"
    by (rule find_duplicate_files_Inr)
  have "disjoint_groups by_size"
    using s unfolding group_files_by_size_def by (rule group_files_disjoint)
  moreover have "disjoint_groups (projr (group_files_by_checksum md5 fs sg))" for sg
  proof -
    obtain cs where cs: "group_files_by_checksum md5 fs sg = Inr cs"
      using group_files_by_checksum_total by blast
    then have "disjoint_groups cs"
      unfolding group_files_by_checksum_def by (rule group_files_disjoint)
    with cs show ?thesis by simp
  qed
  moreover have "set grp \<subseteq> set sg" if "grp \<in> set (projr (group_files_by_checksum md5 fs sg))" for sg grp
  proof -
    obtain cs where cs: "group_files_by_checksum md5 fs sg = Inr cs"
      using group_files_by_checksum_total by blast
    with that group_files_set [OF cs [unfolded group_files_by_checksum_def]]
    show ?thesis by (auto simp: bucket_member)
  qed
  ultimately show ?thesis
    unfolding f by (intro disjoint_groups_concat) auto
qed

lemma compare_files_same:
  "status (fs f1) \<noteq> None \<Longrightarrow> status (fs f2) \<noteq> None
     \<Longrightarrow> compare_files fs f1 f2 = Inr (same_file fs f1 f2)"
  using compare_files_total [of fs f1 f2] compare_files_Inr [of fs f1 f2] by auto

lemma same_file_size:
  "same_file fs x y \<Longrightarrow> status (fs x) = Some sx \<Longrightarrow> status (fs y) = Some sy
     \<Longrightarrow> st_size sx = st_size sy"
  by (simp add: same_file_def)

lemma regular_file_same:
  "regular_file fs f bs \<Longrightarrow> regular_file fs g bs \<Longrightarrow> same_file fs f g"
  by (simp add: regular_file_def same_file_def)

lemma same_file_regular:
  "regular_file fs f bs \<Longrightarrow> same_file fs f p \<longleftrightarrow> regular_file fs p bs"
  by (cases "status (fs p)") (auto simp: regular_file_def same_file_def)

lemma get_file_checksum_regular:
  "regular_file fs p bs \<Longrightarrow> get_file_checksum md5 fs p = PyStr (hexdigest (md5 bs))"
  by (auto simp: regular_file_def readable_def get_file_checksum_def open_rb_def read_all_def
      split: option.splits)

lemma getsize_regular:
  "regular_file fs p bs \<Longrightarrow> getsize fs p = Inr (PyInt (int (length bs)))"
  by (simp add: regular_file_def getsize_def os_stat_def)

lemma find_duplicate_files_has:
  assumes "find_duplicate_files md5 fs names = Inr found"
    and "1 < length (bucket (getsize fs) names n)"
    and "1 < length (bucket (\<lambda>p. Inr (get_file_checksum md5 fs p)) (bucket (getsize fs) names n) h)"
  shows "bucket (\<lambda>p. Inr (get_file_checksum md5 fs p)) (bucket (getsize fs) names n) h \<in> set found"
proof -
  let ?sg = "bucket (getsize fs) names n"
  from assms(1) obtain by_size where
    s: "group_files_by_size fs names = Inr by_size" and
    f: "found = concat (map (\<lambda>sg. projr (group_files_by_checksum md5 fs sg)) by_size)"
    by (rule find_duplicate_files_Inr)
  have sg: "?sg \<in> set by_size"
    using group_files_set [OF s [unfolded group_files_by_size_def]] assms(2) by blast
  obtain cs where cs: "group_files_by_checksum md5 fs ?sg = Inr cs"
    using group_files_by_checksum_total by blast
  have "bucket (\<lambda>p. Inr (get_file_checksum md5 fs p)) ?sg h \<in> set cs"
    using group_files_set [OF cs [unfolded group_files_by_checksum_def]] assms(3) by blast
  with cs sg f show ?thesis by force
qed

lemma disjoint_groups_at_most_once:
  "disjoint_groups gs \<Longrightarrow> length [grp \<leftarrow> gs. x \<in> set grp] \<le> 1"
proof (induction gs)
  case Nil
  then show ?case by simp
next
  case (Cons g gs)
  show ?case
  proof (cases "x \<in> set g")
    case True
    with Cons.prems have "[grp \<leftarrow> gs. x \<in> set grp] = []"
      by (auto simp: filter_empty_conv)
    with True show ?thesis by simp
  next
    case False
    with Cons show ?thesis by simp
  qed
qed

subsection \<open>Evaluation on the example tree\<close>

lemmas demo_simps = demo_fs_def regular_def absent_def hello_def world_def

lemma hexdigest_nonempty: "hexdigest w \<noteq> []"
  using hexdigest_length [of w] by auto

lemmas hash_simps = find_duplicate_files_def group_files_by_size_def getsize_def os_stat_def
  group_files_by_checksum_def group_files_def get_file_checksum_def open_rb_def read_all_def
  hexdigest_nonempty

lemmas comparing_simps = find_duplicate_files_by_comparing_def compare_files_same same_file_def
  readable_def

lemma by_comparing_loop_lengths:
  "find_duplicate_files_by_comparing_loop fs names groups = Inr found
     \<Longrightarrow> \<forall>grp \<in> set groups. 2 \<le> length grp \<Longrightarrow> \<forall>grp \<in> set found. 2 \<le> length grp"
proof
  fix grp
  assume a: "find_duplicate_files_by_comparing_loop fs names groups = Inr found"
    and b: "\<forall>grp \<in> set groups. 2 \<le> length grp" and c: "grp \<in> set found"
  from by_comparing_loop_groups [OF a c] have "grp \<in> set groups \<or> 1 < length grp"
    by blast
  with b show "2 \<le> length grp"
    by auto
qed

section \<open>The claims\<close>

text \<open>
  Claim C8. Whatever the list and the key function, every group \<^verbatim>\<open>group_files\<close>
  returns has at least two members, and so has every group returned by
  \<^verbatim>\<open>group_files_by_size\<close>, \<^verbatim>\<open>group_files_by_checksum\<close>, \<^verbatim>\<open>find_duplicate_files\<close>
  and \<^verbatim>\<open>find_duplicate_files_by_comparing\<close>. Members are counted as \<^verbatim>\<open>len\<close> counts
  them, a path listed twice twice.
\<close>

theorem groups_have_two_members:
  "(\<forall>found. group_files file_path_names func = Inr found \<longrightarrow> (\<forall>grp \<in> set found. 2 \<le> length grp)) \<and>
   (\<forall>found. group_files_by_size fs file_path_names = Inr found \<longrightarrow> (\<forall>grp \<in> set found. 2 \<le> length grp)) \<and>
   (\<forall>found. group_files_by_checksum md5 fs file_path_names = Inr found \<longrightarrow>
      (\<forall>grp \<in> set found. 2 \<le> length grp)) \<and>
   (\<forall>found. find_duplicate_files md5 fs file_path_names = Inr found \<longrightarrow>
      (\<forall>grp \<in> set found. 2 \<le> length grp)) \<and>
   (\<forall>found. find_duplicate_files_by_comparing fs file_path_names = Inr found \<longrightarrow>
      (\<forall>grp \<in> set found. 2 \<le> length grp))"
proof -
  have g: "\<forall>grp \<in> set found. 2 \<le> length grp" if "group_files names f = Inr found"
    for names f found
    using that by (auto simp: group_files_def split: sum.splits)
  have h: "\<forall>grp \<in> set found. 2 \<le> length grp" if "find_duplicate_files md5 fs file_path_names = Inr found"
    for found
  proof
    fix grp assume "grp \<in> set found"
    with that have "1 < length grp"
      by (rule find_duplicate_files_member)
    then show "2 \<le> length grp" by simp
  qed
  have c: "\<forall>grp \<in> set found. 2 \<le> length grp"
    if "find_duplicate_files_by_comparing fs file_path_names = Inr found" for found
    using that by_comparing_loop_lengths [of fs file_path_names "[]" found]
    by (simp add: find_duplicate_files_by_comparing_def)
  from g h c show ?thesis
    unfolding group_files_by_size_def group_files_by_checksum_def by blast
qed

text \<open>
  On the example tree: the four files of five bytes make one group by size, and the two
  readable ones among them that hold \<^verbatim>\<open>hello\<close> make the only group of the other
  functions.
\<close>

theorem groups_have_two_members_witness:
  "(\<exists>found. group_files [''/t/a.txt'', ''/t/locked'', ''/t/b.txt'', ''/t/bad''] (getsize demo_fs) = Inr found \<and>
      found \<noteq> [] \<and> list_all (\<lambda>grp. 2 \<le> length grp) found) \<and>
   (\<exists>found. group_files_by_size demo_fs [''/t/a.txt'', ''/t/locked'', ''/t/b.txt'', ''/t/bad''] = Inr found \<and>
      found \<noteq> [] \<and> list_all (\<lambda>grp. 2 \<le> length grp) found) \<and>
   (\<exists>found. group_files_by_checksum demo_md5 demo_fs [''/t/a.txt'', ''/t/locked'', ''/t/b.txt'', ''/t/bad'']
        = Inr found \<and>
      found \<noteq> [] \<and> list_all (\<lambda>grp. 2 \<le> length grp) found) \<and>
   (\<exists>found. find_duplicate_files demo_md5 demo_fs [''/t/a.txt'', ''/t/locked'', ''/t/b.txt'', ''/t/bad'']
        = Inr found \<and>
      found \<noteq> [] \<and> list_all (\<lambda>grp. 2 \<le> length grp) found) \<and>
   (\<exists>found. find_duplicate_files_by_comparing demo_fs [''/t/a.txt'', ''/t/locked'', ''/t/b.txt'', ''/t/bad'']
        = Inr found \<and>
      found \<noteq> [] \<and> list_all (\<lambda>grp. 2 \<le> length grp) found)"
proof -
  let ?L = "[''/t/a.txt'', ''/t/locked'', ''/t/b.txt'', ''/t/bad'']"
  have s: "group_files_by_size demo_fs ?L = Inr [?L]"
    by (simp add: hash_simps demo_simps)
  have c: "group_files_by_checksum demo_md5 demo_fs ?L = Inr [[''/t/a.txt'', ''/t/b.txt'']]"
    by (simp add: hash_simps demo_simps)
  have h: "find_duplicate_files demo_md5 demo_fs ?L = Inr [[''/t/a.txt'', ''/t/b.txt'']]"
    by (simp add: hash_simps demo_simps)
  have p: "find_duplicate_files_by_comparing demo_fs ?L = Inr [[''/t/a.txt'', ''/t/b.txt'']]"
    by (simp add: comparing_simps demo_simps)
  from groups_have_two_members [of ?L "getsize demo_fs" demo_fs demo_md5]
  show ?thesis
    unfolding s [unfolded group_files_by_size_def] s c h p by (simp add: list_all_iff)
qed

text \<open>
  Claim C9. \<^verbatim>\<open>group_files\<close> leaves a file out of every group when its criterion is
  false for Python: \<^verbatim>\<open>None\<close>, and just as well the integer 0 (the size of an empty
  file) or the empty string.
\<close>

theorem falsy_key_excluded:
  assumes "group_files file_path_names func = Inr found" and "func x = Inr k"
    and "k = PyNone \<or> k = PyInt 0 \<or> k = PyStr ''''"
  shows "\<forall>grp \<in> set found. x \<notin> set grp"
proof
  fix grp assume "grp \<in> set found"
  with group_files_set [OF assms(1)] obtain k' where "grp = bucket func file_path_names k'"
    by auto
  moreover from assms(3) have "\<not> truthy k" by auto
  ultimately show "x \<notin> set grp"
    using assms(2) by (auto simp: bucket_member)
qed

text \<open>
  On the example tree, with \<^verbatim>\<open>getsize\<close> as the key function: the size of \<^verbatim>\<open>e1\<close> is
  0, and \<^verbatim>\<open>e1\<close> is in no group although \<^verbatim>\<open>e2\<close> has the same size.
\<close>

theorem falsy_key_excluded_witness:
  "getsize demo_fs ''/t/e1'' = Inr (PyInt 0) \<and>
   (\<exists>found. group_files [''/t/e1'', ''/t/a.txt'', ''/t/e2'', ''/t/b.txt''] (getsize demo_fs) = Inr found \<and>
      found \<noteq> [] \<and> list_all (\<lambda>grp. ''/t/e1'' \<notin> set grp) found)"
proof -
  let ?L = "[''/t/e1'', ''/t/a.txt'', ''/t/e2'', ''/t/b.txt'']"
  have k: "getsize demo_fs ''/t/e1'' = Inr (PyInt 0)"
    by (simp add: getsize_def os_stat_def demo_simps)
  have g: "group_files ?L (getsize demo_fs) = Inr [[''/t/a.txt'', ''/t/b.txt'']]"
    by (simp add: hash_simps demo_simps)
  from falsy_key_excluded [OF g k] k g show ?thesis
    by (simp add: list_all_iff)
qed



text \<open>
  Claim C6. Two files for which \<^verbatim>\<open>stat\<close> reports different sizes are never together in
  a group, neither in the result of \<^verbatim>\<open>find_duplicate_files\<close> nor in the result of
  \<^verbatim>\<open>find_duplicate_files_by_comparing\<close>.
\<close>

theorem different_sizes_never_together:
  assumes "status (fs f) = Some sf" and "status (fs g) = Some sg" and "st_size sf \<noteq> st_size sg"
  shows
    "(\<forall>found. find_duplicate_files md5 fs file_path_names = Inr found \<longrightarrow>
        (\<forall>grp \<in> set found. \<not> (f \<in> set grp \<and> g \<in> set grp))) \<and>
     (\<forall>found. find_duplicate_files_by_comparing fs file_path_names = Inr found \<longrightarrow>
        (\<forall>grp \<in> set found. \<not> (f \<in> set grp \<and> g \<in> set grp)))"
proof (intro conjI allI impI ballI notI)
  fix found grp
  assume fg: "f \<in> set grp \<and> g \<in> set grp"
  assume "find_duplicate_files md5 fs file_path_names = Inr found" and "grp \<in> set found"
  then obtain n h where
    "grp = bucket (\<lambda>p. Inr (get_file_checksum md5 fs p)) (bucket (getsize fs) file_path_names n) h"
    by (rule find_duplicate_files_member)
  with fg have "getsize fs f = Inr n" and "getsize fs g = Inr n"
    by (simp_all add: bucket_member)
  with assms show False
    by (auto simp: getsize_def os_stat_def)
next
  fix found grp
  assume fg: "f \<in> set grp \<and> g \<in> set grp"
  assume "find_duplicate_files_by_comparing fs file_path_names = Inr found" and "grp \<in> set found"
  then obtain current rest where grp: "grp = current # [x \<leftarrow> rest. same_file fs current x]"
    using by_comparing_loop_groups [of fs file_path_names "[]" found grp]
    by (auto simp: find_duplicate_files_by_comparing_def)
  have eq: "st_size sx = st_size sc"
    if "x \<in> set grp" and "status (fs x) = Some sx" and "status (fs current) = Some sc" for x sx sc
  proof (cases "x = current")
    case True
    with that show ?thesis by simp
  next
    case False
    with that(1) grp have "same_file fs current x" by auto
    then show ?thesis
      using that(2,3) by (simp add: same_file_def)
  qed
  from fg assms(3) have "f \<noteq> current \<or> g \<noteq> current"
    using assms(1,2) by auto
  with fg grp have "same_file fs current f \<or> same_file fs current g" by auto
  then obtain sc where sc: "status (fs current) = Some sc"
    by (auto simp: same_file_def split: option.splits)
  from eq [OF _ assms(1) sc] eq [OF _ assms(2) sc] fg assms(3) show False
    by simp
qed

text \<open>
  On the example tree: \<^verbatim>\<open>a.txt\<close> has 5 bytes and \<^verbatim>\<open>long\<close> has 10, and each
  pipeline returns the one group of \<^verbatim>\<open>a.txt\<close> and \<^verbatim>\<open>b.txt\<close>.
\<close>

theorem different_sizes_never_together_witness:
  "(\<exists>found. find_duplicate_files demo_md5 demo_fs [''/t/a.txt'', ''/t/long'', ''/t/b.txt''] = Inr found \<and>
      found \<noteq> [] \<and> list_all (\<lambda>grp. \<not> (''/t/a.txt'' \<in> set grp \<and> ''/t/long'' \<in> set grp)) found) \<and>
   (\<exists>found. find_duplicate_files_by_comparing demo_fs [''/t/a.txt'', ''/t/long'', ''/t/b.txt''] = Inr found \<and>
      found \<noteq> [] \<and> list_all (\<lambda>grp. \<not> (''/t/a.txt'' \<in> set grp \<and> ''/t/long'' \<in> set grp)) found)"
proof -
  let ?L = "[''/t/a.txt'', ''/t/long'', ''/t/b.txt'']"
  have a: "status (demo_fs ''/t/a.txt'') = Some \<lparr>st_fmt = S_IFREG, st_size = 5\<rparr>"
    and l: "status (demo_fs ''/t/long'') = Some \<lparr>st_fmt = S_IFREG, st_size = 10\<rparr>"
    by (simp_all add: demo_simps)
  have h: "find_duplicate_files demo_md5 demo_fs ?L = Inr [[''/t/a.txt'', ''/t/b.txt'']]"
    by (simp add: hash_simps demo_simps)
  have p: "find_duplicate_files_by_comparing demo_fs ?L = Inr [[''/t/a.txt'', ''/t/b.txt'']]"
    by (simp add: comparing_simps demo_simps)
  from different_sizes_never_together
    [of demo_fs "''/t/a.txt''" _ "''/t/long''" _ demo_md5 ?L, OF a l]
  show ?thesis
    unfolding h p by (simp add: list_all_iff)
qed

text \<open>
  Claim C10. When no path is listed twice, the groups \<^verbatim>\<open>find_duplicate_files_by_comparing\<close>
  returns are pairwise disjoint: a path is in at most one group, and no more than once
  in it.
\<close>

theorem by_comparing_groups_disjoint:
  assumes "distinct file_path_names"
    and "find_duplicate_files_by_comparing fs file_path_names = Inr found"
  shows
    "(\<forall>i j. i < j \<and> j < length found \<longrightarrow> set (found ! i) \<inter> set (found ! j) = {}) \<and>
     (\<forall>p. length [grp \<leftarrow> found. p \<in> set grp] \<le> 1) \<and>
     distinct (concat found)"
proof -
  from assms(2) have l: "find_duplicate_files_by_comparing_loop fs file_path_names [] = Inr found"
    by (simp add: find_duplicate_files_by_comparing_def)
  have "disjoint_groups found"
    using by_comparing_loop_disjoint [OF l] by simp
  moreover have "distinct (concat found)"
    using by_comparing_loop_distinct [OF l assms(1)] by simp
  ultimately show ?thesis
    using disjoint_groups_at_most_once [of found] by (simp add: disjoint_groups_nth)
qed

text \<open>On the example tree, the group of the two copies and the group of the two empty files.\<close>

theorem by_comparing_groups_disjoint_witness:
  "\<exists>found.
     find_duplicate_files_by_comparing demo_fs
       [''/t/a.txt'', ''/t/e1'', ''/t/c.txt'', ''/t/b.txt'', ''/t/e2''] = Inr found \<and>
     length found = 2 \<and> set (found ! 0) \<inter> set (found ! 1) = {} \<and>
     length [grp \<leftarrow> found. ''/t/b.txt'' \<in> set grp] \<le> 1 \<and> distinct (concat found)"
proof -
  let ?L = "[''/t/a.txt'', ''/t/e1'', ''/t/c.txt'', ''/t/b.txt'', ''/t/e2'']"
  have d: "distinct ?L"
    by simp
  have p: "find_duplicate_files_by_comparing demo_fs ?L
    = Inr [[''/t/a.txt'', ''/t/b.txt''], [''/t/e1'', ''/t/e2'']]"
    by (simp add: comparing_simps demo_simps)
  from by_comparing_groups_disjoint [OF d p] p show ?thesis
    by simp
qed

text \<open>
  What the filter of \<^verbatim>\<open>scan_files\<close> achieves: a path on which \<^verbatim>\<open>os.lstat\<close> succeeds
  and reports a symbolic link is not in the result.
\<close>

lemma scan_files_drops_link:
  "os_lstat fs p = Inr S_IFLNK \<Longrightarrow> p \<notin> set (scan_files walk abspath expanduser fs path)"
  by (simp add: scan_files_def islink_def)

text \<open>
  Claim C7 says that no path \<^verbatim>\<open>scan_files\<close> returns is a symbolic link. The docstring
  says so too (\<^verbatim>\<open>ignore symbolic links\<close>), and the filter \<^verbatim>\<open>not islink(x)\<close> is there
  for it, but \<^verbatim>\<open>os.path.islink\<close> answers \<^verbatim>\<open>False\<close> for a link on which \<^verbatim>\<open>os.lstat\<close>
  fails. On the example tree, \<^verbatim>\<open>scan_files\<close> on \<^verbatim>\<open>/p\<close> returns the symbolic link
  \<^verbatim>\<open>/p/link.txt\<close>; on \<^verbatim>\<open>/t\<close>, where \<^verbatim>\<open>os.lstat\<close> succeeds, it leaves
  \<^verbatim>\<open>link.txt\<close> out.
\<close>

theorem scan_files_returns_symlink:
  "is_link (demo_fs ''/p/link.txt'') \<and>
   os_lstat demo_fs ''/p/link.txt'' = Inl OSError \<and>
   scan_files demo_walk (\<lambda>p. p) (\<lambda>p. p) demo_fs ''/p'' = [''/p/link.txt''] \<and>
   is_link (demo_fs ''/t/link.txt'') \<and>
   os_lstat demo_fs ''/t/link.txt'' = Inr S_IFLNK \<and>
   scan_files demo_walk (\<lambda>p. p) (\<lambda>p. p) demo_fs ''/t'' = [''/t/a.txt'', ''/t/b.txt'', ''/t/c.txt'']"
  by (simp add: scan_files_def demo_walk_def join_def islink_def os_lstat_def demo_simps)

text \<open>
  Claim C3 says that a path whose size probe fails is left out and the others are
  grouped. \<^verbatim>\<open>group_files_by_size\<close> passes \<^verbatim>\<open>getsize\<close> itself as the key function
  and nothing catches its \<^verbatim>\<open>OSError\<close>: on the example tree, where \<^verbatim>\<open>/t/gone\<close> does
  not exist, the call raises, while \<^verbatim>\<open>group_files_by_checksum\<close> on the same list
  leaves the path out and groups the others (\<^verbatim>\<open>get_file_checksum\<close> catches the
  exception).
\<close>

theorem group_files_by_size_raises:
  "status (demo_fs ''/t/gone'') = None \<and>
   group_files_by_size demo_fs [''/t/a.txt'', ''/t/gone'', ''/t/b.txt''] = Inl OSError \<and>
   group_files_by_checksum demo_md5 demo_fs [''/t/a.txt'', ''/t/gone'', ''/t/b.txt'']
     = Inr [[''/t/a.txt'', ''/t/b.txt'']]"
  by (simp add: hash_simps demo_simps)

text \<open>
  Claim C4 says that \<^verbatim>\<open>compare_files\<close> returns \<^verbatim>\<open>False\<close> when \<^verbatim>\<open>stat\<close> fails
  for one of the paths. The two \<^verbatim>\<open>stat\<close> calls stand outside the \<^verbatim>\<open>try\<close> of
  \<^verbatim>\<open>_do_compare\<close>: on the example tree the call raises, whichever of the two paths is
  the missing one, and so does \<^verbatim>\<open>find_duplicate_files_by_comparing\<close> on a list with
  the missing path.
\<close>

theorem compare_files_raises:
  "status (demo_fs ''/t/gone'') = None \<and>
   compare_files demo_fs ''/t/gone'' ''/t/a.txt'' = Inl OSError \<and>
   compare_files demo_fs ''/t/a.txt'' ''/t/gone'' = Inl OSError \<and>
   find_duplicate_files_by_comparing demo_fs [''/t/a.txt'', ''/t/gone'', ''/t/b.txt''] = Inl OSError"
  by (simp add: find_duplicate_files_by_comparing_def compare_files_def os_stat_def demo_simps)

text \<open>So the call does not return \<^verbatim>\<open>False\<close>: it returns nothing.\<close>

theorem compare_files_raises_witness:
  "compare_files demo_fs ''/t/gone'' ''/t/a.txt'' \<noteq> Inr False \<and>
   compare_files demo_fs ''/t/a.txt'' ''/t/gone'' \<noteq> Inr False"
  using compare_files_raises by simp

subsection \<open>What the two pipelines group\<close>

text \<open>
  Take a list in which \<^verbatim>\<open>stat\<close> succeeds on every path, and two distinct paths of
  it that are regular files holding the same bytes: \<^verbatim>\<open>stat\<close> reports the number of
  these bytes as the size of each, and both can be read to the end.
  \<^verbatim>\<open>find_duplicate_files_by_comparing\<close> returns a result in which exactly one group
  holds both; so does \<^verbatim>\<open>find_duplicate_files\<close> when the files are not empty.
\<close>

theorem equal_content_one_group:
  assumes "\<forall>p \<in> set file_path_names. status (fs p) \<noteq> None"
    and "f \<in> set file_path_names" and "g \<in> set file_path_names" and "f \<noteq> g"
    and "regular_file fs f bs" and "regular_file fs g bs"
  shows
    "(\<exists>found. find_duplicate_files_by_comparing fs file_path_names = Inr found \<and>
        length [grp \<leftarrow> found. f \<in> set grp \<and> g \<in> set grp] = 1) \<and>
     (bs \<noteq> [] \<longrightarrow>
        (\<exists>found. find_duplicate_files md5 fs file_path_names = Inr found \<and>
           length [grp \<leftarrow> found. f \<in> set grp \<and> g \<in> set grp] = 1))"
proof
  obtain found where
    l: "find_duplicate_files_by_comparing_loop fs file_path_names [] = Inr found"
    using by_comparing_loop_total [OF assms(1)] by blast
  have same: "same_file fs f g"
    using assms(5,6) by (rule regular_file_same)
  from by_comparing_loop_class [OF l assms(2,3,4) same] obtain grp where
    grp: "grp \<in> set found" "set grp = {p \<in> set file_path_names. same_file fs f p}"
    by blast
  with assms(2,3) same have in_grp: "f \<in> set grp" "g \<in> set grp"
    by (auto intro: same_file_refl)
  have "disjoint_groups found"
    using by_comparing_loop_disjoint [OF l] by simp
  from this grp(1) in_grp(1) have "length [grp \<leftarrow> found. f \<in> set grp \<and> g \<in> set grp] = 1"
    by (rule disjoint_groups_once) (simp_all add: in_grp)
  with l show "\<exists>found. find_duplicate_files_by_comparing fs file_path_names = Inr found \<and>
        length [grp \<leftarrow> found. f \<in> set grp \<and> g \<in> set grp] = 1"
    by (simp add: find_duplicate_files_by_comparing_def)
next
  show "bs \<noteq> [] \<longrightarrow>
        (\<exists>found. find_duplicate_files md5 fs file_path_names = Inr found \<and>
           length [grp \<leftarrow> found. f \<in> set grp \<and> g \<in> set grp] = 1)"
  proof
    assume ne: "bs \<noteq> []"
    let ?n = "PyInt (int (length bs))" and ?h = "PyStr (hexdigest (md5 bs))"
    let ?sg = "bucket (getsize fs) file_path_names ?n"
    let ?grp = "bucket (\<lambda>p. Inr (get_file_checksum md5 fs p)) ?sg ?h"
    obtain found where found: "find_duplicate_files md5 fs file_path_names = Inr found"
      using find_duplicate_files_total [OF assms(1)] by blast
    have "f \<in> set ?sg" and "g \<in> set ?sg"
      using assms(2,3,5,6) ne by (simp_all add: bucket_member getsize_regular)
    then have in_grp: "f \<in> set ?grp" "g \<in> set ?grp"
      using assms(5,6) by (simp_all add: bucket_member get_file_checksum_regular hexdigest_nonempty)
    have "1 < length ?sg"
      using \<open>f \<in> set ?sg\<close> \<open>g \<in> set ?sg\<close> assms(4) by (rule two_members)
    moreover have "1 < length ?grp"
      using in_grp assms(4) by (rule two_members)
    ultimately have "?grp \<in> set found"
      by (rule find_duplicate_files_has [OF found])
    with find_duplicate_files_disjoint [OF found]
    have "length [grp \<leftarrow> found. f \<in> set grp \<and> g \<in> set grp] = 1"
      using in_grp(1) by (rule disjoint_groups_once) (simp_all add: in_grp)
    with found show "\<exists>found. find_duplicate_files md5 fs file_path_names = Inr found \<and>
           length [grp \<leftarrow> found. f \<in> set grp \<and> g \<in> set grp] = 1"
      by simp
  qed
qed

text \<open>
  The scenario of the specification, with the two empty files added: under both
  pipelines \<^verbatim>\<open>a.txt\<close> and \<^verbatim>\<open>b.txt\<close> are together in one group.
\<close>

theorem equal_content_one_group_witness:
  "(\<exists>found. find_duplicate_files_by_comparing demo_fs
        [''/t/a.txt'', ''/t/e1'', ''/t/c.txt'', ''/t/b.txt'', ''/t/e2''] = Inr found \<and>
      length [grp \<leftarrow> found. ''/t/a.txt'' \<in> set grp \<and> ''/t/b.txt'' \<in> set grp] = 1) \<and>
   (\<exists>found. find_duplicate_files demo_md5 demo_fs
        [''/t/a.txt'', ''/t/e1'', ''/t/c.txt'', ''/t/b.txt'', ''/t/e2''] = Inr found \<and>
      length [grp \<leftarrow> found. ''/t/a.txt'' \<in> set grp \<and> ''/t/b.txt'' \<in> set grp] = 1)"
proof -
  let ?L = "[''/t/a.txt'', ''/t/e1'', ''/t/c.txt'', ''/t/b.txt'', ''/t/e2'']"
  have s: "\<forall>p \<in> set ?L. status (demo_fs p) \<noteq> None"
    by (simp add: demo_simps)
  have a: "regular_file demo_fs ''/t/a.txt'' hello" and b: "regular_file demo_fs ''/t/b.txt'' hello"
    by (simp_all add: regular_file_def readable_def demo_fs_def regular_def)
  have ne: "hello \<noteq> []"
    by (simp add: hello_def)
  from equal_content_one_group [OF s _ _ _ a b, of demo_md5] ne show ?thesis
    by simp
qed

text \<open>
  Take a list in which \<^verbatim>\<open>stat\<close> succeeds on every path and which holds at least
  two distinct empty regular files that can be opened: \<^verbatim>\<open>stat\<close> reports the size 0
  for them. \<^verbatim>\<open>find_duplicate_files_by_comparing\<close> returns a result with a group that
  consists of all these empty files of the list. \<^verbatim>\<open>find_duplicate_files\<close> returns a
  result too, but every group of it is without them: the lists of the example tree are
  not the only ones on which it loses the empty files.
\<close>

theorem empty_files_grouped_by_comparing:
  assumes "\<forall>p \<in> set file_path_names. status (fs p) \<noteq> None"
    and "e1 \<in> set file_path_names" and "e2 \<in> set file_path_names" and "e1 \<noteq> e2"
    and "regular_file fs e1 []" and "regular_file fs e2 []"
  shows
    "(\<exists>found. find_duplicate_files_by_comparing fs file_path_names = Inr found \<and>
        (\<exists>grp \<in> set found. set grp = {p \<in> set file_path_names. regular_file fs p []})) \<and>
     (\<exists>found. find_duplicate_files md5 fs file_path_names = Inr found \<and>
        (\<forall>grp \<in> set found. \<forall>p \<in> set grp. \<not> regular_file fs p []))"
proof
  obtain found where
    l: "find_duplicate_files_by_comparing_loop fs file_path_names [] = Inr found"
    using by_comparing_loop_total [OF assms(1)] by blast
  have "same_file fs e1 e2"
    using assms(5,6) by (rule regular_file_same)
  from by_comparing_loop_class [OF l assms(2,3,4) this] obtain grp where
    "grp \<in> set found" "set grp = {p \<in> set file_path_names. same_file fs e1 p}"
    by blast
  then have "\<exists>grp \<in> set found. set grp = {p \<in> set file_path_names. regular_file fs p []}"
    using same_file_regular [OF assms(5)] by auto
  with l show "\<exists>found. find_duplicate_files_by_comparing fs file_path_names = Inr found \<and>
        (\<exists>grp \<in> set found. set grp = {p \<in> set file_path_names. regular_file fs p []})"
    by (simp add: find_duplicate_files_by_comparing_def)
next
  obtain found where found: "find_duplicate_files md5 fs file_path_names = Inr found"
    using find_duplicate_files_total [OF assms(1)] by blast
  have "\<not> regular_file fs p []" if "grp \<in> set found" and "p \<in> set grp" for grp p
  proof
    assume "regular_file fs p []"
    then have z: "getsize fs p = Inr (PyInt 0)"
      using getsize_regular [of fs p "[]"] by simp
    from found that(1) obtain n h where
      "grp = bucket (\<lambda>p. Inr (get_file_checksum md5 fs p)) (bucket (getsize fs) file_path_names n) h"
      by (rule find_duplicate_files_member)
    with that(2) have "getsize fs p = Inr n" and "truthy n"
      by (simp_all add: bucket_member)
    with z show False
      by simp
  qed
  with found show "\<exists>found. find_duplicate_files md5 fs file_path_names = Inr found \<and>
        (\<forall>grp \<in> set found. \<forall>p \<in> set grp. \<not> regular_file fs p [])"
    by blast
qed

text \<open>
  On the example tree, with the files of the specification's scenario and the two empty
  ones: the group of \<^verbatim>\<open>e1\<close> and \<^verbatim>\<open>e2\<close> is in the result of the comparison pipeline,
  and neither file is in a group of the hash pipeline's result.
\<close>

theorem empty_files_grouped_by_comparing_witness:
  "(\<exists>found. find_duplicate_files_by_comparing demo_fs
        [''/t/a.txt'', ''/t/e1'', ''/t/c.txt'', ''/t/b.txt'', ''/t/e2''] = Inr found \<and>
      (\<exists>grp \<in> set found. set grp = {''/t/e1'', ''/t/e2''})) \<and>
   (\<exists>found. find_duplicate_files demo_md5 demo_fs
        [''/t/a.txt'', ''/t/e1'', ''/t/c.txt'', ''/t/b.txt'', ''/t/e2''] = Inr found \<and>
      list_all (\<lambda>grp. ''/t/e1'' \<notin> set grp \<and> ''/t/e2'' \<notin> set grp) found)"
proof -
  let ?L = "[''/t/a.txt'', ''/t/e1'', ''/t/c.txt'', ''/t/b.txt'', ''/t/e2'']"
  have s: "\<forall>p \<in> set ?L. status (demo_fs p) \<noteq> None"
    by (simp add: demo_simps)
  have e: "regular_file demo_fs ''/t/e1'' []" "regular_file demo_fs ''/t/e2'' []"
    by (simp_all add: regular_file_def readable_def demo_simps)
  have c: "{p \<in> set ?L. regular_file demo_fs p []} = {''/t/e1'', ''/t/e2''}"
    by (auto simp: regular_file_def readable_def demo_simps)
  have m: "''/t/e1'' \<in> set ?L" "''/t/e2'' \<in> set ?L" and ne: "''/t/e1'' \<noteq> ''/t/e2''"
    by simp_all
  note t = empty_files_grouped_by_comparing [OF s m ne e, of demo_md5, unfolded c]
  from t obtain found where
    h: "find_duplicate_files demo_md5 demo_fs ?L = Inr found"
       "\<forall>grp \<in> set found. \<forall>p \<in> set grp. \<not> regular_file demo_fs p []"
    by blast
  from h(2) e have "list_all (\<lambda>grp. ''/t/e1'' \<notin> set grp \<and> ''/t/e2'' \<notin> set grp) found"
    unfolding list_all_iff by blast
  with h(1) t show ?thesis
    by blast
qed

subsection \<open>The empty files\<close>

text \<open>
  Claim C2 says that two distinct regular files with the same bytes are together in
  exactly one group under both pipelines. \<^verbatim>\<open>find_duplicate_files\<close> breaks it for
  empty files: \<^verbatim>\<open>group_files_by_size\<close> hands their size, 0, to the test
  \<^verbatim>\<open>if criterion:\<close> of \<^verbatim>\<open>group_files\<close>, which takes 0 for a missing criterion. On
  the example tree the hash pipeline returns no group for the two empty files, and the
  comparison pipeline returns the group of the two.
\<close>

theorem equal_empty_files_not_grouped:
  "regular_file demo_fs ''/t/e1'' [] \<and> regular_file demo_fs ''/t/e2'' [] \<and>
   find_duplicate_files demo_md5 demo_fs [''/t/e1'', ''/t/e2''] = Inr [] \<and>
   find_duplicate_files_by_comparing demo_fs [''/t/e1'', ''/t/e2''] = Inr [[''/t/e1'', ''/t/e2'']]"
  by (simp add: regular_file_def readable_def hash_simps comparing_simps demo_simps)

text \<open>
  Claim C1 says that, given at least two empty regular files, both pipelines return a
  result with all of them together in one group. \<^verbatim>\<open>find_duplicate_files\<close> breaks it:
  the size 0 of an empty file fails the test \<^verbatim>\<open>if criterion:\<close> of \<^verbatim>\<open>group_files\<close>,
  so that the file is dropped before any checksum is taken. On the example tree the hash
  pipeline returns the group of the two copies of \<^verbatim>\<open>hello\<close> only; the comparison
  pipeline returns the group of the two empty files as well, and
  \<^verbatim>\<open>group_files_by_checksum\<close>, given the two empty files, groups them.
\<close>

theorem empty_files_lost_by_hash_pipeline:
  "regular_file demo_fs ''/t/e1'' [] \<and> regular_file demo_fs ''/t/e2'' [] \<and>
   find_duplicate_files demo_md5 demo_fs [''/t/a.txt'', ''/t/e1'', ''/t/b.txt'', ''/t/e2'']
     = Inr [[''/t/a.txt'', ''/t/b.txt'']] \<and>
   find_duplicate_files_by_comparing demo_fs [''/t/a.txt'', ''/t/e1'', ''/t/b.txt'', ''/t/e2'']
     = Inr [[''/t/a.txt'', ''/t/b.txt''], [''/t/e1'', ''/t/e2'']] \<and>
   group_files_by_checksum demo_md5 demo_fs [''/t/e1'', ''/t/e2''] = Inr [[''/t/e1'', ''/t/e2'']]"
  by (simp add: regular_file_def readable_def hash_simps comparing_simps demo_simps)

end
